theory Spec2Isabelle
  imports Complex_Main "HOL-Library.Sublist"
begin

section \<open>Python values, exceptions and string rendering\<close>

text \<open>
  The development embeds \<^verbatim>\<open>advanced_patterns.py\<close>: the parameterised
  \<^verbatim>\<open>retry\<close> decorator and the generator pipeline
  (\<^verbatim>\<open>read_large_file\<close>, \<^verbatim>\<open>filter_logs\<close>, \<^verbatim>\<open>search_logs\<close>).

  A raised exception is a value. \<open>ConnectionError\<close> stands for every instance of
  Python's \<^verbatim>\<open>ConnectionError\<close> (the class the \<^verbatim>\<open>except\<close> clause names);
  the carried string is what \<^verbatim>\<open>str(e)\<close> gives.
\<close>

datatype exn =
    ConnectionError string
  | KeyError string
  | ValueError string
  | OtherError string string

datatype pyval = PyNone | PyStr string | PyInt int

fun is_connection_error :: "exn \<Rightarrow> bool" where
  "is_connection_error (ConnectionError m) = True"
| "is_connection_error e = False"

fun str_exn :: "exn \<Rightarrow> string" where
  "str_exn (ConnectionError m) = m"
| "str_exn (KeyError k) = [CHR 0x27] @ k @ [CHR 0x27]"
| "str_exn (ValueError m) = m"
| "str_exn (OtherError c m) = m"

text \<open>Decimal rendering of an integer, as \<^verbatim>\<open>str(i)\<close> and an f-string field do.\<close>

definition digit_char :: "nat \<Rightarrow> char" where
  "digit_char d = char_of (48 + d)"

function str_nat :: "nat \<Rightarrow> string" where
  "str_nat n = (if n < 10 then [digit_char n] else str_nat (n div 10) @ [digit_char (n mod 10)])"
  by pat_completeness auto
termination
  by (relation "measure (\<lambda>n. n)") auto

declare str_nat.simps [simp del]

definition str_int :: "int \<Rightarrow> string" where
  "str_int i = (if i < 0 then CHR ''-'' # str_nat (nat (- i)) else str_nat (nat i))"

section \<open>The retry decorator\<close>

text \<open>
  An operation is a Python function: its \<^verbatim>\<open>__name__\<close> and what a call does to the
  state it can reach (the objects its arguments refer to are part of that state, and every
  attempt passes the same arguments). A call returns a value or raises.
\<close>

record 's operation =
  op_name :: string
  op_call :: "'s \<Rightarrow> (exn + pyval) \<times> 's"

text \<open>
  What the wrapper does besides returning is recorded in order: each call of the wrapped
  function, each \<^verbatim>\<open>logging.warning\<close>, each \<^verbatim>\<open>logging.error\<close> and
  each completed \<^verbatim>\<open>time.sleep\<close>.
\<close>

datatype event =
    Invoked
  | LogWarning string
  | LogError string
  | Slept rat

record 's world =
  op_state :: "'s"
  trace :: "event list"

definition invoke :: "'s operation \<Rightarrow> 's world \<Rightarrow> (exn + pyval) \<times> 's world" where
  "invoke func w =
     (case op_call func (op_state w) of
        (r, s') \<Rightarrow> (r, w\<lparr>op_state := s', trace := trace w @ [Invoked]\<rparr>))"

definition logging_warning :: "string \<Rightarrow> 's world \<Rightarrow> 's world" where
  "logging_warning msg w = w\<lparr>trace := trace w @ [LogWarning msg]\<rparr>"

definition logging_error :: "string \<Rightarrow> 's world \<Rightarrow> 's world" where
  "logging_error msg w = w\<lparr>trace := trace w @ [LogError msg]\<rparr>"

text \<open>\<^verbatim>\<open>time.sleep\<close> raises \<^verbatim>\<open>ValueError\<close> on a negative length.\<close>

definition time_sleep :: "rat \<Rightarrow> 's world \<Rightarrow> exn + 's world" where
  "time_sleep d w =
     (if d < 0 then Inl (ValueError ''sleep length must be non-negative'')
      else Inr (w\<lparr>trace := trace w @ [Slept d]\<rparr>))"

text \<open>
  The two f-strings. The delay is a Python number; how Python prints it is the parameter
  \<open>str_delay\<close> and is not modelled further.
\<close>

definition warning_text :: "(rat \<Rightarrow> string) \<Rightarrow> string \<Rightarrow> int \<Rightarrow> exn \<Rightarrow> rat \<Rightarrow> string" where
  "warning_text str_delay name attempts_left e delay =
     ''[retry] '' @ name @ '' failed (attempts left: '' @ str_int attempts_left
       @ '', error: '' @ str_exn e @ ''). Retrying in '' @ str_delay delay @ '' sec...''"

definition error_text :: "string \<Rightarrow> int \<Rightarrow> exn \<Rightarrow> string" where
  "error_text name max_attempts e =
     ''[retry] '' @ name @ '' failed after '' @ str_int max_attempts
       @ '' attempts. Last error: '' @ str_exn e"

text \<open>
  The \<^verbatim>\<open>while attempts_left > 0\<close> loop of \<^verbatim>\<open>wrapper\<close>. An exception
  other than \<^verbatim>\<open>ConnectionError\<close> is not caught; one raised by
  \<^verbatim>\<open>time.sleep\<close> inside the handler leaves the function too. When the loop ends
  without entering its body the function falls off its end and returns \<^verbatim>\<open>None\<close>.
\<close>

function wrapper_loop ::
  "(rat \<Rightarrow> string) \<Rightarrow> int \<Rightarrow> rat \<Rightarrow> 's operation \<Rightarrow> int \<Rightarrow> 's world
     \<Rightarrow> (exn + pyval) \<times> 's world" where
  "wrapper_loop str_delay max_attempts delay func attempts_left w =
     (if attempts_left > 0 then
        (case invoke func w of
           (Inr v, w1) \<Rightarrow> (Inr v, w1)
         | (Inl e, w1) \<Rightarrow>
             if is_connection_error e then
               (if attempts_left - 1 > 0 then
                  (case time_sleep delay
                          (logging_warning
                             (warning_text str_delay (op_name func) (attempts_left - 1) e delay) w1) of
                     Inl err \<Rightarrow>
                       (Inl err,
                        logging_warning
                          (warning_text str_delay (op_name func) (attempts_left - 1) e delay) w1)
                   | Inr w2 \<Rightarrow>
                       wrapper_loop str_delay max_attempts delay func (attempts_left - 1) w2)
                else
                  (Inl e, logging_error (error_text (op_name func) max_attempts e) w1))
             else (Inl e, w1))
      else (Inr PyNone, w))"
  by pat_completeness auto
termination
  by (relation "measure (\<lambda>(sd, m, d, f, a, w). nat a)") auto

declare wrapper_loop.simps [simp del]

definition wrapper ::
  "(rat \<Rightarrow> string) \<Rightarrow> int \<Rightarrow> rat \<Rightarrow> 's operation \<Rightarrow> 's world \<Rightarrow> (exn + pyval) \<times> 's world" where
  "wrapper str_delay max_attempts delay func w =
     wrapper_loop str_delay max_attempts delay func max_attempts w"

text \<open>
  \<^verbatim>\<open>retry(max_attempts, delay)(func)\<close>: the decorated function.
  \<^verbatim>\<open>functools.wraps\<close> copies \<^verbatim>\<open>func.__name__\<close> onto it.
\<close>

definition retry ::
  "(rat \<Rightarrow> string) \<Rightarrow> int \<Rightarrow> rat \<Rightarrow> 's operation \<Rightarrow> 's world operation" where
  "retry str_delay max_attempts delay func =
     \<lparr>op_name = op_name func, op_call = wrapper str_delay max_attempts delay func\<rparr>"

text \<open>
  The demonstration's operation: it reads and decrements \<^verbatim>\<open>counter['failures']\<close>;
  the dictionary is the state.
\<close>

definition flaky_network_call :: "(string \<rightharpoonup> int) operation" where
  "flaky_network_call =
     \<lparr>op_name = ''flaky_network_call'',
      op_call = (\<lambda>counter.
        case counter ''failures'' of
          None \<Rightarrow> (Inl (KeyError ''failures''), counter)
        | Some f \<Rightarrow>
            if f > 0 then (Inl (ConnectionError ''Network down!''), counter(''failures'' \<mapsto> f - 1))
            else (Inr (PyStr ''Success!''), counter))\<rparr>"

text \<open>Observations on a run: the outcome of the \<open>n\<close>-th call (from 0) made from a state.\<close>

fun nth_outcome :: "'s operation \<Rightarrow> nat \<Rightarrow> 's \<Rightarrow> exn + pyval" where
  "nth_outcome func 0 s = fst (op_call func s)"
| "nth_outcome func (Suc n) s = nth_outcome func n (snd (op_call func s))"


fun is_warning :: "event \<Rightarrow> bool" where
  "is_warning (LogWarning m) = True"
| "is_warning ev = False"


fun is_sleep :: "event \<Rightarrow> bool" where
  "is_sleep (Slept d) = True"
| "is_sleep ev = False"

definition invocations :: "event list \<Rightarrow> nat" where
  "invocations tr = length (filter (\<lambda>ev. ev = Invoked) tr)"

definition warnings :: "event list \<Rightarrow> nat" where
  "warnings tr = length (filter is_warning tr)"


definition pauses :: "event list \<Rightarrow> nat" where
  "pauses tr = length (filter is_sleep tr)"

definition new_events :: "'s world \<Rightarrow> 's world \<Rightarrow> event list" where
  "new_events w w' = drop (length (trace w)) (trace w')"

text \<open>
  The shape of the events a run of the loop may add, when it starts with
  \<open>attempts_left = a\<close> from operation state \<open>s\<close>: the \<open>j\<close>-th call (from 0) that
  fails and is retried is reported by a warning that carries \<open>a - 1 - j\<close> as the attempts
  left and that call's exception; the call that uses up the last attempt is reported by an
  error that carries \<open>max_attempts\<close> and that call's exception.
\<close>

fun event_shape ::
  "(rat \<Rightarrow> string) \<Rightarrow> 's operation \<Rightarrow> int \<Rightarrow> rat \<Rightarrow> int \<Rightarrow> 's \<Rightarrow> event \<Rightarrow> bool" where
  "event_shape str_delay func max_attempts delay a s Invoked = True"
| "event_shape str_delay func max_attempts delay a s (Slept d) = (d = delay \<and> 0 \<le> delay)"
| "event_shape str_delay func max_attempts delay a s (LogWarning msg) =
     (\<exists>j e. int j + 1 < a \<and> nth_outcome func j s = Inl e \<and> is_connection_error e
        \<and> msg = warning_text str_delay (op_name func) (a - 1 - int j) e delay)"
| "event_shape str_delay func max_attempts delay a s (LogError msg) =
     (\<exists>j e. int j + 1 = a \<and> nth_outcome func j s = Inl e \<and> is_connection_error e
        \<and> msg = error_text (op_name func) max_attempts e)"

section \<open>The generator pipeline\<close>

text \<open>The record \<^verbatim>\<open>f"logline {i} - status=OK"\<close>.\<close>

definition logline :: "int \<Rightarrow> string" where
  "logline i = ''logline '' @ str_int i @ '' - status=OK''"

text \<open>Python's \<^verbatim>\<open>needle in line\<close> on strings: the needle occurs at some position.\<close>

fun contains :: "string \<Rightarrow> string \<Rightarrow> bool" where
  "contains needle [] = (needle = [])"
| "contains needle (c # cs) = (prefix needle (c # cs) \<or> contains needle cs)"

text \<open>
  A generator object is its suspended frame: the function it runs and the values of its
  locals. \<open>ReadLargeFile num_lines i\<close> is a frame of \<^verbatim>\<open>read_large_file\<close> whose
  \<^verbatim>\<open>range\<close> iterator gives \<open>i\<close> next; \<open>FilterLogs lines status\<close> and
  \<open>SearchLogs lines needle\<close> are frames of the two filters, holding the iterator they
  read. \<open>ListIter xs\<close> is an iterator over a finite iterable that still has the
  elements \<open>xs\<close> to give, so that the filters can be read over any finite upstream.
  A generator that has returned is a frame whose upstream is exhausted: every later
  \<^verbatim>\<open>next\<close> is \<^verbatim>\<open>StopIteration\<close> again.
\<close>

datatype gen =
    ListIter "string list"
  | ReadLargeFile int int
  | FilterLogs gen string
  | SearchLogs gen string

text \<open>An upper bound on the records the source under a generator can still produce.\<close>

fun remaining :: "gen \<Rightarrow> nat" where
  "remaining (ListIter xs) = length xs"
| "remaining (ReadLargeFile num_lines i) = nat (num_lines - i)"
| "remaining (FilterLogs lines status) = remaining lines"
| "remaining (SearchLogs lines needle) = remaining lines"

text \<open>
  \<^verbatim>\<open>next(g)\<close>: the element and the resumed frame, or \<open>None\<close> for
  \<^verbatim>\<open>StopIteration\<close>. A filter runs its \<^verbatim>\<open>for\<close> loop until a line passes the
  test (the \<^verbatim>\<open>yield\<close>) or the upstream stops.
\<close>

function (domintros) gen_next :: "gen \<Rightarrow> string option \<times> gen" where
  "gen_next (ListIter []) = (None, ListIter [])"
| "gen_next (ListIter (x # xs)) = (Some x, ListIter xs)"
| "gen_next (ReadLargeFile num_lines i) =
     (if i < num_lines then (Some (logline i), ReadLargeFile num_lines (i + 1))
      else (None, ReadLargeFile num_lines i))"
| "gen_next (FilterLogs lines status) =
     (case gen_next lines of
        (None, lines') \<Rightarrow> (None, FilterLogs lines' status)
      | (Some line, lines') \<Rightarrow>
          if contains (''status='' @ status) line then (Some line, FilterLogs lines' status)
          else gen_next (FilterLogs lines' status))"
| "gen_next (SearchLogs lines needle) =
     (case gen_next lines of
        (None, lines') \<Rightarrow> (None, SearchLogs lines' needle)
      | (Some line, lines') \<Rightarrow>
          if contains needle line then (Some line, SearchLogs lines' needle)
          else gen_next (SearchLogs lines' needle))"
  by pat_completeness auto

lemma gen_next_remaining_dom:
  "gen_next_dom g \<Longrightarrow>
     (case gen_next g of
        (None, g') \<Rightarrow> remaining g' \<le> remaining g
      | (Some line, g') \<Rightarrow> remaining g' < remaining g)"
proof (induction g rule: gen_next.pinduct)
  case 1
  then show ?case by (simp add: gen_next.psimps)
next
  case (2 x xs)
  then show ?case by (simp add: gen_next.psimps)
next
  case (3 num_lines i)
  then show ?case by (simp add: gen_next.psimps)
next
  case (4 lines status)
  obtain r lines' where n: "gen_next lines = (r, lines')"
    by (cases "gen_next lines")
  show ?case
  proof (cases r)
    case None
    with 4(1,2) n show ?thesis by (simp add: gen_next.psimps)
  next
    case (Some line)
    from 4(2) n Some have lt: "remaining lines' < remaining lines" by simp
    show ?thesis
    proof (cases "contains (''status='' @ status) line")
      case True
      with 4(1) n Some lt show ?thesis by (simp add: gen_next.psimps)
    next
      case False
      have eq: "gen_next (FilterLogs lines status) = gen_next (FilterLogs lines' status)"
        using 4(1) n Some False by (simp add: gen_next.psimps)
      from 4(3)[OF n[symmetric] Some False] lt show ?thesis
        unfolding eq by (auto split: prod.splits option.splits)
    qed
  qed
next
  case (5 lines needle)
  obtain r lines' where n: "gen_next lines = (r, lines')"
    by (cases "gen_next lines")
  show ?case
  proof (cases r)
    case None
    with 5(1,2) n show ?thesis by (simp add: gen_next.psimps)
  next
    case (Some line)
    from 5(2) n Some have lt: "remaining lines' < remaining lines" by simp
    show ?thesis
    proof (cases "contains needle line")
      case True
      with 5(1) n Some lt show ?thesis by (simp add: gen_next.psimps)
    next
      case False
      have eq: "gen_next (SearchLogs lines needle) = gen_next (SearchLogs lines' needle)"
        using 5(1) n Some False by (simp add: gen_next.psimps)
      from 5(3)[OF n[symmetric] Some False] lt show ?thesis
        unfolding eq by (auto split: prod.splits option.splits)
    qed
  qed
qed

termination gen_next
proof (relation "measures [remaining, size]", goal_cases)
  case 1
  show ?case by simp
next
  case (2 lines status)
  show ?case by simp
next
  case (3 lines status x y x2)
  then show ?case using gen_next_remaining_dom[of lines] by (auto split: prod.splits)
next
  case (4 lines needle)
  show ?case by simp
next
  case (5 lines needle x y x2)
  then show ?case using gen_next_remaining_dom[of lines] by (auto split: prod.splits)
qed

lemma gen_next_total: "gen_next_dom g"
  by (induction g rule: gen_next.induct) (auto intro: gen_next.domintros)

declare gen_next.simps [simp del]

lemma gen_next_yield:
  "gen_next g = (Some line, g') \<Longrightarrow> remaining g' < remaining g"
  using gen_next_remaining_dom[OF gen_next_total, of g] by simp

text \<open>\<^verbatim>\<open>list(g)\<close>: everything the generator yields until it stops.\<close>

function drain :: "gen \<Rightarrow> string list" where
  "drain g = (case gen_next g of (None, g') \<Rightarrow> [] | (Some line, g') \<Rightarrow> line # drain g')"
  by pat_completeness auto
termination
  by (relation "measure remaining") (auto dest: gen_next_yield[OF sym])

declare drain.simps [simp del]

text \<open>
  A call of a generator function runs nothing: it returns the fresh frame. The defaults
  are \<^verbatim>\<open>num_lines = 1_000_000\<close> and \<^verbatim>\<open>status = "OK"\<close>.
\<close>

definition read_large_file :: "int \<Rightarrow> gen" where
  "read_large_file num_lines = ReadLargeFile num_lines 0"

definition filter_logs :: "gen \<Rightarrow> string \<Rightarrow> gen" where
  "filter_logs lines status = FilterLogs lines status"

definition search_logs :: "gen \<Rightarrow> string \<Rightarrow> gen" where
  "search_logs lines needle = SearchLogs lines needle"

text \<open>A consumer that calls \<^verbatim>\<open>next\<close> until it has \<open>k\<close> elements or the generator stops.\<close>

fun pull :: "nat \<Rightarrow> gen \<Rightarrow> string list \<times> gen" where
  "pull 0 g = ([], g)"
| "pull (Suc k) g =
     (case gen_next g of
        (None, g') \<Rightarrow> ([], g')
      | (Some line, g') \<Rightarrow> (case pull k g' of (ls, g'') \<Rightarrow> (line # ls, g'')))"

text \<open>
  The demonstration's loop,
  \<^verbatim>\<open>for i, line in enumerate(logs): if i >= 5: break; print(line)\<close>,
  with the lines printed so far; the pipeline it runs over is
  \<^verbatim>\<open>filter_logs(search_logs(read_large_file(), "logline"))\<close>.
\<close>

function main_loop :: "int \<Rightarrow> gen \<Rightarrow> string list \<Rightarrow> string list \<times> gen" where
  "main_loop i logs printed =
     (case gen_next logs of
        (None, logs') \<Rightarrow> (printed, logs')
      | (Some line, logs') \<Rightarrow>
          if i \<ge> 5 then (printed, logs') else main_loop (i + 1) logs' (printed @ [line]))"
  by pat_completeness auto
termination
  by (relation "measure (\<lambda>(i, logs, printed). remaining logs)")
     (auto dest: gen_next_yield[OF sym])

declare main_loop.simps [simp del]

definition main_logs :: "gen" where
  "main_logs = filter_logs (search_logs (read_large_file 1000000) ''logline'') ''OK''"





text \<open>
  Chains of stages. A stage is one of the two filters with its parameter fixed; a chain
  applies stages innermost first; a grouping is a way of bracketing a chain into
  sub-pipelines that are built and then composed.
\<close>

datatype stage = FilterStage string | SearchStage string

fun apply_stage :: "stage \<Rightarrow> gen \<Rightarrow> gen" where
  "apply_stage (FilterStage status) lines = filter_logs lines status"
| "apply_stage (SearchStage needle) lines = search_logs lines needle"

fun stage_test :: "stage \<Rightarrow> string \<Rightarrow> bool" where
  "stage_test (FilterStage status) line = contains (''status='' @ status) line"
| "stage_test (SearchStage needle) line = contains needle line"

fun chain :: "stage list \<Rightarrow> gen \<Rightarrow> gen" where
  "chain [] source = source"
| "chain (s # ss) source = chain ss (apply_stage s source)"

datatype grouping = Single stage | Group grouping grouping

fun run_grouping :: "grouping \<Rightarrow> gen \<Rightarrow> gen" where
  "run_grouping (Single s) source = apply_stage s source"
| "run_grouping (Group first second) source = run_grouping second (run_grouping first source)"

fun stages_of :: "grouping \<Rightarrow> stage list" where
  "stages_of (Single s) = [s]"
| "stages_of (Group first second) = stages_of first @ stages_of second"

text \<open>
  How many elements of \<open>xs\<close> are read to find the first \<open>j\<close> that pass \<open>p\<close>: the
  position just after the \<open>j\<close>-th match, or all of \<open>xs\<close> when it has fewer.
\<close>

fun upto_match :: "('a \<Rightarrow> bool) \<Rightarrow> nat \<Rightarrow> 'a list \<Rightarrow> nat" where
  "upto_match p 0 xs = 0"
| "upto_match p (Suc j) [] = 0"
| "upto_match p (Suc j) (x # xs) =
     (if p x then Suc (upto_match p j xs) else Suc (upto_match p (Suc j) xs))"

section \<open>Properties of the retry decorator\<close>

subsection \<open>Runs of the loop\<close>

lemma wrapper_loop_no_attempts:
  "a \<le> 0 \<Longrightarrow> wrapper_loop sd m delay func a w = (Inr PyNone, w)"
  by (subst wrapper_loop.simps) simp

lemma wrapper_loop_non_transient:
  assumes "0 < a" "fst (op_call func (op_state w)) = Inl e" "\<not> is_connection_error e"
  shows "wrapper_loop sd m delay func a w =
     (Inl e, w\<lparr>op_state := snd (op_call func (op_state w)), trace := trace w @ [Invoked]\<rparr>)"
proof -
  obtain r s' where oc: "op_call func (op_state w) = (r, s')"
    by (cases "op_call func (op_state w)")
  with assms(2) have "r = Inl e" by simp
  with oc assms(1,3) show ?thesis
    by (subst wrapper_loop.simps) (simp add: invoke_def)
qed

text \<open>
  One retried failure: the loop continues with one attempt less, after the call, the
  warning and the pause.
\<close>

lemma wrapper_loop_retry_step:
  assumes "0 \<le> delay" "1 < a" "op_call func (op_state w) = (Inl e, s')" "is_connection_error e"
  shows "wrapper_loop sd m delay func a w =
     wrapper_loop sd m delay func (a - 1)
       (w\<lparr>op_state := s',
          trace := trace w @ [Invoked, LogWarning (warning_text sd (op_name func) (a - 1) e delay),
                              Slept delay]\<rparr>)"
  using assms
  by (subst wrapper_loop.simps) (simp add: invoke_def time_sleep_def logging_warning_def)



subsection \<open>The events of a run\<close>

lemma event_shape_shift:
  assumes "event_shape sd func m delay (a - 1) (snd (op_call func s)) ev"
  shows "event_shape sd func m delay a s ev"
proof (cases ev)
  case Invoked
  then show ?thesis by simp
next
  case (LogWarning msg)
  with assms obtain j e where j: "int j + 1 < a - 1"
    "nth_outcome func j (snd (op_call func s)) = Inl e" "is_connection_error e"
    "msg = warning_text sd (op_name func) (a - 1 - 1 - int j) e delay"
    by auto
  have "int (Suc j) + 1 < a" "nth_outcome func (Suc j) s = Inl e"
    "msg = warning_text sd (op_name func) (a - 1 - int (Suc j)) e delay"
    using j by (simp_all add: algebra_simps)
  with j(3) show ?thesis
    unfolding LogWarning event_shape.simps by blast
next
  case (LogError msg)
  with assms obtain j e where j: "int j + 1 = a - 1"
    "nth_outcome func j (snd (op_call func s)) = Inl e" "is_connection_error e"
    "msg = error_text (op_name func) m e"
    by auto
  have "int (Suc j) + 1 = a" "nth_outcome func (Suc j) s = Inl e"
    using j by simp_all
  with j(3,4) show ?thesis
    unfolding LogError event_shape.simps by blast
next
  case (Slept d)
  with assms show ?thesis by simp
qed

lemma wrapper_loop_trace:
  "\<exists>evs. trace (snd (wrapper_loop sd m delay func a w)) = trace w @ evs
     \<and> (\<forall>ev\<in>set evs. event_shape sd func m delay a (op_state w) ev)"
proof (induction "nat a" arbitrary: a w)
  case 0
  then have "a \<le> 0" by simp
  then show ?case by (simp add: wrapper_loop_no_attempts)
next
  case (Suc n)
  then have pos: "0 < a" by simp
  obtain r s' where oc: "op_call func (op_state w) = (r, s')"
    by (cases "op_call func (op_state w)")
  let ?w1 = "w\<lparr>op_state := s', trace := trace w @ [Invoked]\<rparr>"
  show ?case
  proof (cases r)
    case (Inr v)
    with pos oc have "wrapper_loop sd m delay func a w = (Inr v, ?w1)"
      by (subst wrapper_loop.simps) (simp add: invoke_def)
    then show ?thesis by simp
  next
    case (Inl e)
    have out0: "nth_outcome func 0 (op_state w) = Inl e" using oc Inl by simp
    show ?thesis
    proof (cases "is_connection_error e")
      case False
      with pos oc Inl have "wrapper_loop sd m delay func a w = (Inl e, ?w1)"
        by (subst wrapper_loop.simps) (simp add: invoke_def)
      then show ?thesis by simp
    next
      case True
      let ?warn = "LogWarning (warning_text sd (op_name func) (a - 1) e delay)"
      show ?thesis
      proof (cases "0 < a - 1")
        case False
        with pos have a1: "a = 1" by simp
        from False pos oc Inl True
        have "wrapper_loop sd m delay func a w =
                (Inl e, logging_error (error_text (op_name func) m e) ?w1)"
          by (subst wrapper_loop.simps) (simp add: invoke_def)
        then have tr: "trace (snd (wrapper_loop sd m delay func a w)) =
            trace w @ [Invoked, LogError (error_text (op_name func) m e)]"
          by (simp add: logging_error_def)
        have "event_shape sd func m delay a (op_state w)
                (LogError (error_text (op_name func) m e))"
          unfolding event_shape.simps using a1 out0 True
          by (intro exI[of _ "0::nat"] exI[of _ e]) simp
        with tr show ?thesis by simp
      next
        case more: True
        have warn: "event_shape sd func m delay a (op_state w) ?warn"
          unfolding event_shape.simps using more out0 True
          by (intro exI[of _ "0::nat"] exI[of _ e]) simp
        show ?thesis
        proof (cases "delay < 0")
          case True
          with more pos oc Inl \<open>is_connection_error e\<close>
          have "wrapper_loop sd m delay func a w =
                  (Inl (ValueError ''sleep length must be non-negative''),
                   logging_warning (warning_text sd (op_name func) (a - 1) e delay) ?w1)"
            by (subst wrapper_loop.simps) (simp add: invoke_def time_sleep_def)
          then have "trace (snd (wrapper_loop sd m delay func a w)) = trace w @ [Invoked, ?warn]"
            by (simp add: logging_warning_def)
          with warn show ?thesis by simp
        next
          case False
          let ?w3 = "w\<lparr>op_state := s', trace := trace w @ [Invoked, ?warn, Slept delay]\<rparr>"
          have step: "wrapper_loop sd m delay func a w = wrapper_loop sd m delay func (a - 1) ?w3"
            using False more oc Inl \<open>is_connection_error e\<close>
            by (intro wrapper_loop_retry_step) simp_all
          have "n = nat (a - 1)" using Suc.hyps(2) by simp
          from Suc.hyps(1)[OF this, of ?w3]
          obtain evs where evs:
            "trace (snd (wrapper_loop sd m delay func (a - 1) ?w3)) = trace ?w3 @ evs"
            "\<forall>ev\<in>set evs. event_shape sd func m delay (a - 1) (op_state ?w3) ev"
            by blast
          have st: "op_state ?w3 = snd (op_call func (op_state w))"
            using oc by simp
          have shifted: "\<forall>ev\<in>set evs. event_shape sd func m delay a (op_state w) ev"
            using evs(2) unfolding st by (blast intro: event_shape_shift)
          have "trace (snd (wrapper_loop sd m delay func a w)) =
                  trace w @ ([Invoked, ?warn, Slept delay] @ evs)"
            unfolding step evs(1) by simp
          moreover have "\<forall>ev\<in>set ([Invoked, ?warn, Slept delay] @ evs).
                            event_shape sd func m delay a (op_state w) ev"
            using shifted warn False by simp
          ultimately show ?thesis by blast
        qed
      qed
    qed
  qed
qed

lemma wrapper_loop_new_events:
  "take (length (trace w)) (trace (snd (wrapper_loop sd m delay func a w))) = trace w
   \<and> (\<forall>ev\<in>set (new_events w (snd (wrapper_loop sd m delay func a w))).
         event_shape sd func m delay a (op_state w) ev)"
proof -
  obtain evs where "trace (snd (wrapper_loop sd m delay func a w)) = trace w @ evs"
    "\<forall>ev\<in>set evs. event_shape sd func m delay a (op_state w) ev"
    using wrapper_loop_trace by blast
  then show ?thesis by (simp add: new_events_def)
qed

lemma warning_text_names:
  "sublist name (warning_text sd name a e d)"
  "sublist (str_int a) (warning_text sd name a e d)"
  "sublist (str_exn e) (warning_text sd name a e d)"
  "sublist (sd d) (warning_text sd name a e d)"
proof -
  show "sublist name (warning_text sd name a e d)"
    unfolding warning_text_def by (rule sublist_appendI)
  show "sublist (str_int a) (warning_text sd name a e d)"
    unfolding warning_text_def sublist_def
    by (rule exI[of _ "''[retry] '' @ name @ '' failed (attempts left: ''"]) simp
  show "sublist (str_exn e) (warning_text sd name a e d)"
    unfolding warning_text_def sublist_def
    by (rule exI[of _ "''[retry] '' @ name @ '' failed (attempts left: '' @ str_int a
                         @ '', error: ''"]) simp
  show "sublist (sd d) (warning_text sd name a e d)"
    unfolding warning_text_def sublist_def
    by (rule exI[of _ "''[retry] '' @ name @ '' failed (attempts left: '' @ str_int a
                         @ '', error: '' @ str_exn e @ ''). Retrying in ''"]) simp
qed

lemma error_text_names:
  "sublist name (error_text name m e)"
  "sublist (str_int m) (error_text name m e)"
  "sublist (str_exn e) (error_text name m e)"
proof -
  show "sublist name (error_text name m e)"
    unfolding error_text_def by (rule sublist_appendI)
  show "sublist (str_int m) (error_text name m e)"
    unfolding error_text_def sublist_def
    by (rule exI[of _ "''[retry] '' @ name @ '' failed after ''"]) simp
  show "sublist (str_exn e) (error_text name m e)"
    unfolding error_text_def sublist_def
    by (rule exI[of _ "''[retry] '' @ name @ '' failed after '' @ str_int m
                         @ '' attempts. Last error: ''"]) (rule exI[of _ "[]"], simp)
qed



subsection \<open>The claims about the decorator\<close>





text \<open>
  C3. With \<open>max_attempts \<ge> 1\<close>, when the first call of the operation raises an exception
  that is not a \<^verbatim>\<open>ConnectionError\<close>, the decorated function raises that exception
  at once: the run adds exactly one event, the call itself, so there is one call, no
  warning, no error and no pause.
\<close>

theorem retry_propagates_non_transient:
  assumes "1 \<le> max_attempts"
    and "fst (op_call func (op_state w)) = Inl e"
    and "\<not> is_connection_error e"
  shows "fst (op_call (retry sd max_attempts delay func) w) = Inl e
    \<and> new_events w (snd (op_call (retry sd max_attempts delay func) w)) = [Invoked]
    \<and> invocations (trace (snd (op_call (retry sd max_attempts delay func) w)))
        = invocations (trace w) + 1
    \<and> warnings (trace (snd (op_call (retry sd max_attempts delay func) w)))
        = warnings (trace w)
    \<and> pauses (trace (snd (op_call (retry sd max_attempts delay func) w)))
        = pauses (trace w)"
proof -
  from assms(1) have "0 < max_attempts" by simp
  from wrapper_loop_non_transient[OF this assms(2) assms(3), of sd max_attempts delay]
  show ?thesis
    by (simp add: retry_def wrapper_def new_events_def invocations_def warnings_def pauses_def)
qed

theorem retry_propagates_non_transient_witness:
  "(1::int) \<le> 3
   \<and> fst (op_call flaky_network_call Map.empty) = Inl (KeyError ''failures'')
   \<and> \<not> is_connection_error (KeyError ''failures'')
   \<and> fst (op_call (retry (\<lambda>d. ''0.5'') 3 (1 / 2) flaky_network_call)
            \<lparr>op_state = Map.empty, trace = []\<rparr>) = Inl (KeyError ''failures'')
   \<and> trace (snd (op_call (retry (\<lambda>d. ''0.5'') 3 (1 / 2) flaky_network_call)
            \<lparr>op_state = Map.empty, trace = []\<rparr>)) = [Invoked]"
  using retry_propagates_non_transient[where max_attempts = 3 and func = flaky_network_call
      and w = "\<lparr>op_state = Map.empty, trace = []\<rparr>" and e = "KeyError ''failures''"
      and sd = "\<lambda>d. ''0.5''" and delay = "1 / 2"]
  by (simp add: flaky_network_call_def new_events_def)

text \<open>
  C8. The decorated function keeps the operation's name. Every event a call of it adds is
  the call of the operation, a pause of \<open>delay\<close>, a warning or an error; a warning is
  the f-string built from the operation's name, the attempts left after the failed call,
  the exception that call raised and the delay; an error is the f-string built from the
  name, \<open>max_attempts\<close> and the exception of the call that used up the last attempt.
  Each of these parts occurs in the text of its notice.
\<close>

theorem retry_notices_name_operation_and_cause:
  "op_name (retry sd max_attempts delay func) = op_name func
   \<and> take (length (trace w)) (trace (snd (op_call (retry sd max_attempts delay func) w))) = trace w
   \<and> (\<forall>ev\<in>set (new_events w (snd (op_call (retry sd max_attempts delay func) w))).
         event_shape sd func max_attempts delay max_attempts (op_state w) ev)
   \<and> sublist (op_name func) (warning_text sd (op_name func) a e delay)
   \<and> sublist (str_int a) (warning_text sd (op_name func) a e delay)
   \<and> sublist (str_exn e) (warning_text sd (op_name func) a e delay)
   \<and> sublist (sd delay) (warning_text sd (op_name func) a e delay)
   \<and> sublist (op_name func) (error_text (op_name func) max_attempts e)
   \<and> sublist (str_int max_attempts) (error_text (op_name func) max_attempts e)
   \<and> sublist (str_exn e) (error_text (op_name func) max_attempts e)"
  using wrapper_loop_new_events[of w sd max_attempts delay func max_attempts]
  by (simp add: retry_def wrapper_def warning_text_names error_text_names)

theorem retry_notices_name_operation_and_cause_witness:
  "LogWarning ''[retry] flaky_network_call failed (attempts left: 2, error: Network down!). Retrying in 0.5 sec...''
     \<in> set (new_events \<lparr>op_state = [''failures'' \<mapsto> 2], trace = []\<rparr>
          (snd (op_call (retry (\<lambda>d. ''0.5'') 3 (1 / 2) flaky_network_call)
                  \<lparr>op_state = [''failures'' \<mapsto> 2], trace = []\<rparr>)))
   \<and> event_shape (\<lambda>d. ''0.5'') flaky_network_call 3 (1 / 2) 3 [''failures'' \<mapsto> 2]
        (LogWarning ''[retry] flaky_network_call failed (attempts left: 2, error: Network down!). Retrying in 0.5 sec...'')"
proof -
  have mem: "LogWarning ''[retry] flaky_network_call failed (attempts left: 2, error: Network down!). Retrying in 0.5 sec...''
     \<in> set (new_events \<lparr>op_state = [''failures'' \<mapsto> 2], trace = []\<rparr>
          (snd (op_call (retry (\<lambda>d. ''0.5'') 3 (1 / 2) flaky_network_call)
                  \<lparr>op_state = [''failures'' \<mapsto> 2], trace = []\<rparr>)))"
    by code_simp
  have "\<forall>ev\<in>set (new_events \<lparr>op_state = [''failures'' \<mapsto> 2], trace = []\<rparr>
          (snd (op_call (retry (\<lambda>d. ''0.5'') 3 (1 / 2) flaky_network_call)
                  \<lparr>op_state = [''failures'' \<mapsto> 2], trace = []\<rparr>))).
        event_shape (\<lambda>d. ''0.5'') flaky_network_call 3 (1 / 2) 3 [''failures'' \<mapsto> 2] ev"
    using retry_notices_name_operation_and_cause[where sd = "\<lambda>d. ''0.5''" and max_attempts = 3
      and delay = "1 / 2" and func = flaky_network_call
      and w = "\<lparr>op_state = [''failures'' \<mapsto> 2], trace = []\<rparr>"
      and a = 0 and e = "KeyError []"]
    by simp
  with mem show ?thesis by blast
qed

text \<open>
  C9. With \<open>max_attempts \<le> 0\<close> the decorator still builds a function (nothing checks the
  bound), and a call of it returns \<^verbatim>\<open>None\<close> and changes nothing: the operation is
  not called and nothing is logged.
\<close>

theorem retry_without_attempts_returns_none:
  assumes "max_attempts \<le> 0"
  shows "op_call (retry sd max_attempts delay func) w = (Inr PyNone, w)"
  using assms by (simp add: retry_def wrapper_def wrapper_loop_no_attempts)

theorem retry_without_attempts_returns_none_witness:
  "(0::int) \<le> 0
   \<and> op_call (retry (\<lambda>d. ''0.5'') 0 (1 / 2) flaky_network_call)
        \<lparr>op_state = [''failures'' \<mapsto> 2], trace = []\<rparr>
      = (Inr PyNone, \<lparr>op_state = [''failures'' \<mapsto> 2], trace = []\<rparr>)"
  using retry_without_attempts_returns_none[where max_attempts = 0 and sd = "\<lambda>d. ''0.5''"
      and delay = "1 / 2" and func = flaky_network_call
      and w = "\<lparr>op_state = [''failures'' \<mapsto> 2], trace = []\<rparr>"]
  by simp

section \<open>Properties of the generator pipeline\<close>

subsection \<open>What a generator yields\<close>

lemma contains_sublist: "contains needle hay = sublist needle hay"
  by (induction hay) (simp_all add: sublist_Cons_right)

lemma gen_next_stage:
  "gen_next up = (None, up') \<Longrightarrow> gen_next (apply_stage s up) = (None, apply_stage s up')"
  "gen_next up = (Some line, up') \<Longrightarrow> stage_test s line
     \<Longrightarrow> gen_next (apply_stage s up) = (Some line, apply_stage s up')"
  "gen_next up = (Some line, up') \<Longrightarrow> \<not> stage_test s line
     \<Longrightarrow> gen_next (apply_stage s up) = gen_next (apply_stage s up')"
  by (cases s; simp add: gen_next.simps filter_logs_def search_logs_def)+

lemma gen_next_stop_stable: "gen_next g = (None, g') \<Longrightarrow> gen_next g' = (None, g')"
proof (induction g arbitrary: g' rule: gen_next.induct)
  case 1
  then show ?case by (auto simp add: gen_next.simps)
next
  case (2 x xs)
  then show ?case by (simp add: gen_next.simps)
next
  case (3 num_lines i)
  then show ?case by (auto simp add: gen_next.simps split: if_splits)
next
  case (4 lines status)
  obtain r lines' where n: "gen_next lines = (r, lines')" by (cases "gen_next lines")
  show ?case
  proof (cases r)
    case None
    with 4(1)[of lines'] n have "gen_next lines' = (None, lines')" by simp
    moreover from 4(3) n None have "g' = FilterLogs lines' status"
      by (simp add: gen_next.simps)
    ultimately show ?thesis by (simp add: gen_next.simps)
  next
    case (Some line)
    show ?thesis
    proof (cases "contains (''status='' @ status) line")
      case True
      with 4(3) n Some show ?thesis by (simp add: gen_next.simps)
    next
      case False
      with 4(3) n Some have "gen_next (FilterLogs lines' status) = (None, g')"
        by (simp add: gen_next.simps)
      from 4(2)[OF n[symmetric] Some False this] show ?thesis .
    qed
  qed
next
  case (5 lines needle)
  obtain r lines' where n: "gen_next lines = (r, lines')" by (cases "gen_next lines")
  show ?case
  proof (cases r)
    case None
    with 5(1)[of lines'] n have "gen_next lines' = (None, lines')" by simp
    moreover from 5(3) n None have "g' = SearchLogs lines' needle"
      by (simp add: gen_next.simps)
    ultimately show ?thesis by (simp add: gen_next.simps)
  next
    case (Some line)
    show ?thesis
    proof (cases "contains needle line")
      case True
      with 5(3) n Some show ?thesis by (simp add: gen_next.simps)
    next
      case False
      with 5(3) n Some have "gen_next (SearchLogs lines' needle) = (None, g')"
        by (simp add: gen_next.simps)
      from 5(2)[OF n[symmetric] Some False this] show ?thesis .
    qed
  qed
qed

lemma drain_stop: "gen_next g = (None, g') \<Longrightarrow> drain g = [] \<and> drain g' = []"
  using gen_next_stop_stable[of g g'] by (simp add: drain.simps)

lemma drain_yield: "gen_next g = (Some line, g') \<Longrightarrow> drain g = line # drain g'"
  by (subst drain.simps) simp

lemma drain_ListIter: "drain (ListIter xs) = xs"
  by (induction xs) (simp_all add: drain.simps gen_next.simps)

lemma drain_ReadLargeFile: "drain (ReadLargeFile num_lines i) = map logline [i..num_lines - 1]"
proof (induction "nat (num_lines - i)" arbitrary: i)
  case 0
  then have "\<not> i < num_lines" by simp
  then show ?case by (simp add: drain.simps gen_next.simps)
next
  case (Suc k)
  then have lt: "i < num_lines" by simp
  from Suc(2) have "k = nat (num_lines - (i + 1))" by simp
  from Suc(1)[OF this] lt show ?case
    by (subst drain.simps) (simp add: gen_next.simps upto_rec1[of i])
qed

lemma drain_stage: "drain (apply_stage s up) = filter (stage_test s) (drain up)"
proof (induction up rule: drain.induct)
  case (1 g)
  obtain r g' where n: "gen_next g = (r, g')" by (cases "gen_next g")
  show ?case
  proof (cases r)
    case None
    with n show ?thesis
      using drain_stop[of g g'] drain_stop[OF gen_next_stage(1), of g g' s] by simp
  next
    case (Some line)
    with n have y: "gen_next g = (Some line, g')" by simp
    from 1[OF n[symmetric] Some]
    have ih: "drain (apply_stage s g') = filter (stage_test s) (drain g')" .
    show ?thesis
    proof (cases "stage_test s line")
      case True
      from drain_yield[OF gen_next_stage(2)[OF y True]] ih True drain_yield[OF y]
      show ?thesis by simp
    next
      case False
      have "drain (apply_stage s g) = drain (apply_stage s g')"
        using gen_next_stage(3)[OF y False] by (simp add: drain.simps[of "apply_stage s g"] drain.simps[of "apply_stage s g'"])
      with ih False drain_yield[OF y] show ?thesis by simp
    qed
  qed
qed

lemma stage_test_fun:
  "stage_test (FilterStage status) = contains (''status='' @ status)"
  "stage_test (SearchStage needle) = contains needle"
  by (rule ext, simp)+

lemma contains_eq_sublist: "contains needle = sublist needle"
  by (rule ext) (rule contains_sublist)

lemma drain_filter_logs:
  "drain (filter_logs lines status) = filter (contains (''status='' @ status)) (drain lines)"
  using drain_stage[of "FilterStage status" lines] by (simp only: stage_test_fun apply_stage.simps)

lemma drain_search_logs:
  "drain (search_logs lines needle) = filter (contains needle) (drain lines)"
  using drain_stage[of "SearchStage needle" lines] by (simp only: stage_test_fun apply_stage.simps)

subsection \<open>Pulling, chains and the store\<close>


lemma upto_match_le: "upto_match p j xs \<le> length xs"
  by (induction p j xs rule: upto_match.induct) auto

lemma upto_match_least:
  "k' < upto_match p j xs \<Longrightarrow> length (filter p (take k' xs)) < j"
proof (induction p j xs arbitrary: k' rule: upto_match.induct)
  case (1 p xs)
  then show ?case by simp
next
  case (2 p j)
  then show ?case by simp
next
  case (3 p j x xs)
  show ?case
  proof (cases k')
    case 0
    then show ?thesis by simp
  next
    case (Suc m)
    with 3 show ?thesis by (cases "p x") auto
  qed
qed

lemma pull_stage:
  "\<exists>up'. pull j (apply_stage s up) =
            (filter (stage_test s) (take (upto_match (stage_test s) j (drain up)) (drain up)),
             apply_stage s up')
         \<and> drain up' = drop (upto_match (stage_test s) j (drain up)) (drain up)"
proof (induction j arbitrary: up)
  case 0
  show ?case by auto
next
  case (Suc j)
  show ?case
  proof (induction up rule: drain.induct)
    case (1 g)
    obtain r g' where n: "gen_next g = (r, g')" by (cases "gen_next g")
    show ?case
    proof (cases r)
      case None
      with n have stop: "gen_next g = (None, g')" by simp
      from drain_stop[OF stop] gen_next_stage(1)[OF stop, of s]
      show ?thesis by auto
    next
      case (Some line)
      with n have y: "gen_next g = (Some line, g')" by simp
      note dg = drain_yield[OF y]
      show ?thesis
      proof (cases "stage_test s line")
        case True
        from Suc[of g'] obtain up' where
          p: "pull j (apply_stage s g') =
                (filter (stage_test s) (take (upto_match (stage_test s) j (drain g')) (drain g')),
                 apply_stage s up')"
          and d: "drain up' = drop (upto_match (stage_test s) j (drain g')) (drain g')"
          by blast
        from gen_next_stage(2)[OF y True] p d True dg
        show ?thesis by auto
      next
        case False
        from 1[OF n[symmetric] Some] obtain up' where
          p: "pull (Suc j) (apply_stage s g') =
                (filter (stage_test s) (take (upto_match (stage_test s) (Suc j) (drain g')) (drain g')),
                 apply_stage s up')"
          and d: "drain up' = drop (upto_match (stage_test s) (Suc j) (drain g')) (drain g')"
          by blast
        have "pull (Suc j) (apply_stage s g) = pull (Suc j) (apply_stage s g')"
          using gen_next_stage(3)[OF y False] by simp
        with p d False dg show ?thesis by auto
      qed
    qed
  qed
qed

lemma chain_append: "chain (ss @ ts) source = chain ts (chain ss source)"
  by (induction ss arbitrary: source) simp_all

lemma run_grouping_chain: "run_grouping t source = chain (stages_of t) source"
  by (induction t arbitrary: source) (simp_all add: chain_append)

lemma drain_chain:
  "drain (chain ss source) = foldl (\<lambda>ls s. filter (stage_test s) ls) (drain source) ss"
  by (induction ss arbitrary: source) (simp_all add: drain_stage)

lemma status_in_logline:
  assumes "prefix status ''OK''"
  shows "sublist (''status='' @ status) (logline i)"
proof -
  from assms obtain rest where r: "''OK'' = status @ rest"
    by (auto simp: prefix_def)
  have "logline i = (''logline '' @ str_int i @ '' - '') @ (''status='' @ status) @ rest"
    using r by (simp add: logline_def)
  then show ?thesis unfolding sublist_def by blast
qed




subsection \<open>The claims about the pipeline\<close>



text \<open>
  C5. \<^verbatim>\<open>filter_logs\<close> and \<^verbatim>\<open>search_logs\<close> yield exactly the upstream records
  that pass their test, in upstream order, whatever generator or finite sequence \<open>xs\<close>
  they read. The pipeline
  \<^verbatim>\<open>filter_logs(search_logs(read_large_file(n), needle), status)\<close> yields the records
  of a strictly increasing list of indices, which holds every index below \<open>n\<close> whose
  record passes both tests and no other: nothing is reordered, repeated, or dropped for
  another reason than a test.
\<close>

theorem filter_stages_keep_matches_in_order:
  "drain (filter_logs lines status)
      = filter (\<lambda>line. contains (''status='' @ status) line) (drain lines)
   \<and> drain (search_logs lines needle) = filter (\<lambda>line. contains needle line) (drain lines)
   \<and> drain (filter_logs (ListIter xs) status)
        = filter (\<lambda>line. contains (''status='' @ status) line) xs
   \<and> drain (search_logs (ListIter xs) needle) = filter (\<lambda>line. contains needle line) xs
   \<and> (\<exists>idxs. drain (filter_logs (search_logs (read_large_file n) needle) status)
                 = map logline idxs
         \<and> sorted_wrt (<) idxs
         \<and> set idxs = {i. 0 \<le> i \<and> i < n \<and> contains needle (logline i)
                           \<and> contains (''status='' @ status) (logline i)})"
proof -
  have f: "drain (filter_logs lines status)
      = filter (\<lambda>line. contains (''status='' @ status) line) (drain lines)" for lines
    by (rule drain_filter_logs)
  have s: "drain (search_logs lines needle) = filter (\<lambda>line. contains needle line) (drain lines)"
    for lines
    by (rule drain_search_logs)
  let ?q = "\<lambda>i. contains needle (logline i) \<and> contains (''status='' @ status) (logline i)"
  let ?idxs = "filter ?q [0..n - 1]"
  have "drain (filter_logs (search_logs (read_large_file n) needle) status) = map logline ?idxs"
    by (simp add: f s read_large_file_def drain_ReadLargeFile filter_map o_def conj_commute)
  moreover have "sorted_wrt (<) ?idxs"
    by (intro sorted_wrt_filter) (simp add: strict_sorted_iff)
  moreover have "set ?idxs = {i. 0 \<le> i \<and> i < n \<and> contains needle (logline i)
                           \<and> contains (''status='' @ status) (logline i)}"
    by auto
  ultimately show ?thesis using f[of lines] s[of lines] f[of "ListIter xs"] s[of "ListIter xs"]
    by (simp only: drain_ListIter) blast
qed

text \<open>
  C6. When a consumer has pulled \<open>j\<close> records from a stage, the stage has read from its
  upstream exactly the first \<open>k\<close> records, where \<open>k\<close> is the least length of a prefix
  holding \<open>j\<close> matches (all of the upstream when it has fewer): every record read has
  been yielded or rejected, the resumed frame holds none, and what the upstream still has
  to give is the rest. Pulling five records through
  \<^verbatim>\<open>filter_logs(read_large_file(1_000_000))\<close> leaves the source at index 5; the
  demonstration's loop, which asks for a sixth record before it breaks, leaves it at 6.
\<close>

theorem stages_read_no_further_than_the_match:
  "(let p = stage_test s; xs = drain lines; k = upto_match p j xs in
      (\<exists>lines'. pull j (apply_stage s lines) = (filter p (take k xs), apply_stage s lines')
                \<and> drain lines' = drop k xs)
      \<and> k \<le> length xs
      \<and> (\<forall>k'<k. length (filter p (take k' xs)) < j))
   \<and> pull 5 (filter_logs (read_large_file 1000000) ''OK'')
        = (map logline [0..4], FilterLogs (ReadLargeFile 1000000 5) ''OK'')
   \<and> main_loop 0 main_logs []
        = (map logline [0..4],
           FilterLogs (SearchLogs (ReadLargeFile 1000000 6) ''logline'') ''OK'')"
proof -
  have "pull 5 (filter_logs (read_large_file 1000000) ''OK'')
        = (map logline [0..4], FilterLogs (ReadLargeFile 1000000 5) ''OK'')"
    by code_simp
  moreover have "main_loop 0 main_logs []
        = (map logline [0..4],
           FilterLogs (SearchLogs (ReadLargeFile 1000000 6) ''logline'') ''OK'')"
    by code_simp
  ultimately show ?thesis
    using pull_stage[of j s lines] upto_match_le[of "stage_test s" j "drain lines"]
      upto_match_least[of _ "stage_test s" j "drain lines"]
    by (simp add: Let_def)
qed

theorem stages_read_no_further_than_the_match_witness:
  "(2::nat) < upto_match (stage_test (FilterStage ''OK'')) 2
        (drain (ListIter [''a status=OK'', ''b status=NO'', ''c status=OK'', ''d status=OK'']))
   \<and> length (filter (stage_test (FilterStage ''OK''))
        (take 2 (drain (ListIter [''a status=OK'', ''b status=NO'', ''c status=OK'', ''d status=OK''])))) < 2"
proof -
  have h: "(2::nat) < upto_match (stage_test (FilterStage ''OK'')) 2
        (drain (ListIter [''a status=OK'', ''b status=NO'', ''c status=OK'', ''d status=OK'']))"
    by code_simp
  from stages_read_no_further_than_the_match[of "FilterStage ''OK''"
      "ListIter [''a status=OK'', ''b status=NO'', ''c status=OK'', ''d status=OK'']" 2]
  have "\<forall>k'<upto_match (stage_test (FilterStage ''OK'')) 2
        (drain (ListIter [''a status=OK'', ''b status=NO'', ''c status=OK'', ''d status=OK''])).
      length (filter (stage_test (FilterStage ''OK''))
        (take k' (drain (ListIter [''a status=OK'', ''b status=NO'', ''c status=OK'', ''d status=OK''])))) < 2"
    unfolding Let_def by blast
  with h show ?thesis by blast
qed

text \<open>
  C7. However a chain of stages is bracketed into sub-pipelines, the generator built is
  the one built by nesting the calls in order, and it yields the source's records filtered
  by each stage's test in turn; two groupings of the same stages yield the same records.
\<close>

theorem stage_grouping_gives_the_same_records:
  "run_grouping t source = chain (stages_of t) source
   \<and> drain (run_grouping t source)
        = foldl (\<lambda>ls s. filter (stage_test s) ls) (drain source) (stages_of t)
   \<and> (stages_of t1 = stages_of t2
        \<longrightarrow> drain (run_grouping t1 source) = drain (run_grouping t2 source))
   \<and> filter_logs (search_logs source needle) status
        = run_grouping (Group (Single (SearchStage needle)) (Single (FilterStage status))) source"
  by (simp add: run_grouping_chain drain_chain)

theorem stage_grouping_gives_the_same_records_witness:
  "stages_of (Group (Group (Single (SearchStage ''logline'')) (Single (FilterStage ''OK'')))
                (Single (SearchStage ''1'')))
     = stages_of (Group (Single (SearchStage ''logline''))
                (Group (Single (FilterStage ''OK'')) (Single (SearchStage ''1''))))
   \<and> drain (run_grouping
        (Group (Group (Single (SearchStage ''logline'')) (Single (FilterStage ''OK'')))
                (Single (SearchStage ''1''))) (read_large_file 3))
     = drain (run_grouping
        (Group (Single (SearchStage ''logline''))
                (Group (Single (FilterStage ''OK'')) (Single (SearchStage ''1''))))
        (read_large_file 3))"
  using stage_grouping_gives_the_same_records[
      where ?t1.0 = "Group (Group (Single (SearchStage ''logline'')) (Single (FilterStage ''OK'')))
                (Single (SearchStage ''1''))"
      and ?t2.0 = "Group (Single (SearchStage ''logline''))
                (Group (Single (FilterStage ''OK'')) (Single (SearchStage ''1'')))"
      and source = "read_large_file 3"]
  by simp

text \<open>
  C10. \<^verbatim>\<open>filter_logs\<close> keeps a line exactly when \<^verbatim>\<open>"status=" + status\<close>
  occurs somewhere in it. Over the records of \<^verbatim>\<open>read_large_file\<close> it therefore
  keeps every line for each \<open>status\<close> that is a prefix of \<open>OK\<close>, and a line whose
  status field is \<open>OKAY\<close> passes the test for \<open>OK\<close>.
\<close>

theorem filter_logs_tests_substring:
  "drain (filter_logs lines status)
      = filter (\<lambda>line. sublist (''status='' @ status) line) (drain lines)
   \<and> (prefix status ''OK''
        \<longrightarrow> drain (filter_logs (read_large_file n) status) = drain (read_large_file n))
   \<and> drain (filter_logs (ListIter [''job 7 - status=OKAY'']) ''OK'') = [''job 7 - status=OKAY'']"
proof -
  have f: "drain (filter_logs lines status)
      = filter (\<lambda>line. sublist (''status='' @ status) line) (drain lines)" for lines
    by (simp only: drain_filter_logs contains_eq_sublist)
  have "drain (filter_logs (read_large_file n) status) = drain (read_large_file n)"
    if "prefix status ''OK''"
    using status_in_logline[OF that]
    by (simp add: f read_large_file_def drain_ReadLargeFile)
  moreover have "drain (filter_logs (ListIter [''job 7 - status=OKAY'']) ''OK'')
      = [''job 7 - status=OKAY'']"
    by code_simp
  ultimately show ?thesis using f by blast
qed

theorem filter_logs_tests_substring_witness:
  "prefix ''O'' ''OK''
   \<and> drain (filter_logs (read_large_file 3) ''O'') = drain (read_large_file 3)
   \<and> drain (filter_logs (read_large_file 3) ''O'') = map logline [0, 1, 2]"
proof -
  have p: "prefix ''O'' ''OK''" by simp
  have "drain (read_large_file 3) = map logline [0, 1, 2]"
    by code_simp
  with filter_logs_tests_substring[of "ListIter []" "''O''" 3] p
  show ?thesis by simp
qed

end
